theory Spec2Isabelle
  imports Complex_Main "HOL-Library.AList" "HOL-Library.Sublist"
begin

section \<open>Data model\<close>

text \<open>
  The notebook \<^verbatim>\<open>rag-azure-openai-cosmosdb-notebook.ipynb\<close> drives three external
  collaborators: the embedding service, the chat completion service and the vector
  store (one collection, \<^verbatim>\<open>collection_name\<close>).  Their behaviour is a parameter of the
  model (an \<open>env\<close>); the notebook's own code (the helper
  \<^verbatim>\<open>upsert_data_to_memory_store\<close>, the search and invoke cells and the conversation
  loop) is translated function by function.  An embedding is an opaque vector of
  numbers; a relevance score is a number.
\<close>

type_synonym vector = "real list"

text \<open>
  Python exceptions, as values.  \<^verbatim>\<open>OSError\<close> is what \<^verbatim>\<open>open\<close> raises for a file
  it cannot open.  The last five are the collaborators' own: the store's lookup of a
  missing id, a fault of a lookup, of an embedding call, of a write, of a completion.
\<close>

datatype exn =
    OSError
  | JSONDecodeError
  | KeyError string
  | IndexError
  | EOFError
  | RecordNotFound
  | StorageLookupFault
  | EmbeddingFault
  | StorageWriteFault
  | CompletionFault

text \<open>
  An item of the data file: a JSON object, read by \<^verbatim>\<open>item["id"]\<close>,
  \<^verbatim>\<open>item["content"]\<close>, \<^verbatim>\<open>item["title"]\<close>; a missing key raises \<^verbatim>\<open>KeyError\<close>.
\<close>

type_synonym item = "string \<rightharpoonup> string"

text \<open>A stored record (the library's \<^verbatim>\<open>MemoryRecord\<close>).\<close>

record memory_record =
  rec_id :: string
  rec_text :: string
  rec_description :: string
  rec_additional_metadata :: "string option"
  rec_embedding :: "vector option"

text \<open>A retrieval result (the library's \<^verbatim>\<open>MemoryQueryResult\<close>).\<close>

record query_result =
  res_id :: string
  res_text :: string
  res_description :: string
  res_additional_metadata :: "string option"
  res_relevance :: real

text \<open>\<^verbatim>\<open>sk.KernelArguments(name=value, ...)\<close>: the named values bound into a prompt.\<close>

type_synonym kernel_arguments = "(string \<times> string option) list"

datatype delivery = Whole | Streaming

datatype message =
    Saving nat nat
  | Skipping nat nat
  | Question string
  | Fragment string
  | Blank

text \<open>Everything the notebook does to the outside world, in the order it does it.\<close>

datatype event =
    GetCall string
  | EmbedCall string
  | UpsertCall string
  | SearchCall vector nat
  | Invoked delivery string kernel_arguments
  | InputRead string
  | Printed message
  | Slept nat

text \<open>
  The world: the collection (its records in insertion order, keyed by id) and the
  trace of events so far.  The length of the trace serves as the time at which the
  next external call is made.
\<close>

record world =
  docs :: "(string \<times> memory_record) list"
  trace :: "event list"

text \<open>
  The environment: what the collaborators answer.  \<open>fs\<close> gives the text of each
  readable file and \<open>json_load\<close> parses it (\<open>None\<close>: the call raises).  The fault
  schedules say at which times a store lookup, an embedding call, a store write or a
  completion call fails.  \<open>miss_raises\<close> says whether the store's \<^verbatim>\<open>get\<close> raises for a
  missing id (the helper's comment: \<^verbatim>\<open>if the id doesn't exist, it throws an
  exception\<close>) or returns \<^verbatim>\<open>None\<close>.
\<close>

record env =
  fs :: "string \<rightharpoonup> string"
  json_load :: "string \<Rightarrow> item list option"
  get_fault :: "nat \<Rightarrow> bool"
  miss_raises :: bool
  embed_fault :: "nat \<Rightarrow> bool"
  write_fault :: "nat \<Rightarrow> bool"
  complete_fault :: "nat \<Rightarrow> bool"
  embed :: "string \<Rightarrow> vector"
  relevance :: "vector \<Rightarrow> vector \<Rightarrow> real"
  metadata_of :: "memory_record \<Rightarrow> string option"
  complete :: "kernel_arguments \<Rightarrow> string list"

definition emit :: "event \<Rightarrow> world \<Rightarrow> world" where
  "emit e s = s\<lparr>trace := trace s @ [e]\<rparr>"

definition now :: "world \<Rightarrow> nat" where
  "now s = length (trace s)"

section \<open>The store and the memory, as the notebook uses them\<close>

text \<open>
  \<^verbatim>\<open>await store.get(collection_name, key, with_embedding=True)\<close>, the library's lookup
  by id: the stored record, or an exception (a fault of the storage at this time, or
  the id is missing).
\<close>

definition store_get :: "env \<Rightarrow> world \<Rightarrow> string \<Rightarrow> (exn + memory_record option) \<times> world" where
  "store_get env s key =
     (let s' = emit (GetCall key) s in
      if get_fault env (now s) then (Inl StorageLookupFault, s')
      else (case map_of (docs s) key of
              Some r \<Rightarrow> (Inr (Some r), s')
            | None \<Rightarrow> if miss_raises env then (Inl RecordNotFound, s') else (Inr None, s')))"

text \<open>
  Modelled from the spec: \<^verbatim>\<open>memory.save_information\<close> is the library's; the notebook
  says of it "The save_information function does two things: generate embeddings +
  upload the data to your database", the helper that "the embedding is generated from
  the text field", and the spec (4.1, 4.2) that the vector is computed from the content
  and that \<^verbatim>\<open>put\<close> overwrites a record whose id exists, record and vector together.
  Either call can fail, and then the exception leaves \<^verbatim>\<open>save_information\<close>.
\<close>

definition save_information ::
  "env \<Rightarrow> world \<Rightarrow> string \<Rightarrow> string \<Rightarrow> string \<Rightarrow> (exn + unit) \<times> world" where
  "save_information env s ident text description =
     (let s1 = emit (EmbedCall text) s in
      if embed_fault env (now s) then (Inl EmbeddingFault, s1)
      else
        (let r = \<lparr>rec_id = ident, rec_text = text, rec_description = description,
                  rec_additional_metadata = None, rec_embedding = Some (embed env text)\<rparr>;
             s2 = emit (UpsertCall ident) s1
         in if write_fault env (now s1) then (Inl StorageWriteFault, s2)
            else (Inr (), s2\<lparr>docs := AList.update ident r (docs s2)\<rparr>)))"

section \<open>Ingestion: \<^verbatim>\<open>upsert_data_to_memory_store\<close>\<close>

text \<open>
  The \<^verbatim>\<open>try\<close> block of the loop body:
  \<^verbatim>\<open>already_created = bool(await store.get(collection_name, item["id"], with_embedding=True))\<close>
  with \<^verbatim>\<open>except Exception: already_created = False\<close>.  The key lookup
  \<^verbatim>\<open>item["id"]\<close> is inside the \<^verbatim>\<open>try\<close>, so its \<^verbatim>\<open>KeyError\<close> is caught too.
\<close>

definition already_created :: "env \<Rightarrow> world \<Rightarrow> item \<Rightarrow> bool \<times> world" where
  "already_created env s item =
     (case item ''id'' of
        None \<Rightarrow> (False, s)
      | Some key \<Rightarrow>
          (case store_get env s key of
             (Inl e, s') \<Rightarrow> (False, s')
           | (Inr r, s') \<Rightarrow> (r \<noteq> None, s')))"

text \<open>
  The rest of the loop body for item number \<open>n\<close> of \<open>len\<close>: the call of
  \<^verbatim>\<open>memory.save_information\<close> (no handler around it) and the progress line.
\<close>

definition upsert_item :: "env \<Rightarrow> nat \<Rightarrow> nat \<Rightarrow> item \<Rightarrow> world \<Rightarrow> (exn + unit) \<times> world" where
  "upsert_item env len n item s =
     (case already_created env s item of
        (False, s1) \<Rightarrow>
          (case item ''id'' of
             None \<Rightarrow> (Inl (KeyError ''id''), s1)
           | Some ident \<Rightarrow>
          (case item ''content'' of
             None \<Rightarrow> (Inl (KeyError ''content''), s1)
           | Some text \<Rightarrow>
          (case item ''title'' of
             None \<Rightarrow> (Inl (KeyError ''title''), s1)
           | Some description \<Rightarrow>
          (case save_information env s1 ident text description of
             (Inl e, s2) \<Rightarrow> (Inl e, s2)
           | (Inr u, s2) \<Rightarrow> (Inr (), emit (Printed (Saving n len)) s2)))))
      | (True, s1) \<Rightarrow> (Inr (), emit (Printed (Skipping n len)) s1))"

text \<open>\<^verbatim>\<open>for item in data\<close>, with the counter \<open>n\<close> incremented first.\<close>

fun ingest_loop :: "env \<Rightarrow> nat \<Rightarrow> nat \<Rightarrow> item list \<Rightarrow> world \<Rightarrow> (exn + unit) \<times> world" where
  "ingest_loop env len n [] s = (Inr (), s)"
| "ingest_loop env len n (item # rest) s =
     (case upsert_item env len (n + 1) item s of
        (Inl e, s') \<Rightarrow> (Inl e, s')
      | (Inr u, s') \<Rightarrow> ingest_loop env len (n + 1) rest s')"

text \<open>
  The helper: open the file, parse all of it, then loop over the items.  (Its two
  arguments \<^verbatim>\<open>memory\<close> and \<^verbatim>\<open>store\<close> are two views of the one collection: the
  notebook builds \<^verbatim>\<open>memory\<close> over \<^verbatim>\<open>store\<close>.)
\<close>

definition upsert_data_to_memory_store ::
  "env \<Rightarrow> string \<Rightarrow> world \<Rightarrow> (exn + unit) \<times> world" where
  "upsert_data_to_memory_store env data_file_path s =
     (case fs env data_file_path of
        None \<Rightarrow> (Inl OSError, s)
      | Some text \<Rightarrow>
          (case json_load env text of
             None \<Rightarrow> (Inl JSONDecodeError, s)
           | Some data \<Rightarrow> ingest_loop env (length data) 0 data s))"

section \<open>Retrieval\<close>

text \<open>
  Modelled from the spec: the similarity search runs inside the vector store, outside
  the notebook.  The spec (4.1): \<^verbatim>\<open>search(collection, query_vector, top_k=1)\<close> returns
  an "ordered sequence of RetrievalResult, ordered by descending relevance under the
  collection's configured metric; ties broken by insertion order (stable)".  The
  configured metric (the notebook sets \<^verbatim>\<open>similarity = "COS"\<close>) is the parameter
  \<open>relevance\<close>.  A stored record gives the candidate result below; a record without a
  vector is not indexed.  The result's \<^verbatim>\<open>additional_metadata\<close> is what the store makes
  of the record (the notebook prints it as "Full Record").
\<close>

definition to_result :: "env \<Rightarrow> vector \<Rightarrow> memory_record \<Rightarrow> query_result option" where
  "to_result env query_vector r =
     (case rec_embedding r of
        None \<Rightarrow> None
      | Some v \<Rightarrow>
          Some \<lparr>res_id = rec_id r, res_text = rec_text r, res_description = rec_description r,
                res_additional_metadata = metadata_of env r,
                res_relevance = relevance env query_vector v\<rparr>)"

text \<open>
  Modelled from the spec: the candidates ordered by descending relevance, by a stable
  sort (spec 4.1: "ties broken by insertion order (stable)").
\<close>

definition ranked :: "env \<Rightarrow> (string \<times> memory_record) list \<Rightarrow> vector \<Rightarrow> query_result list" where
  "ranked env ds query_vector =
     sort_key (\<lambda>r. - res_relevance r) (List.map_filter (to_result env query_vector) (map snd ds))"

text \<open>
  Modelled from the spec: \<^verbatim>\<open>search(collection, query_vector, top_k)\<close>, the first
  \<open>top_k\<close> of the ranking (spec 4.1).
\<close>

definition search :: "env \<Rightarrow> (string \<times> memory_record) list \<Rightarrow> vector \<Rightarrow> nat \<Rightarrow> query_result list" where
  "search env ds query_vector top_k = take top_k (ranked env ds query_vector)"

text \<open>
  Modelled from the spec: \<^verbatim>\<open>await memory.search(collection_name, query_term)\<close> is the
  library's.  The spec (4.3): call the embedding provider with the query text, fail if
  it is unavailable, call \<^verbatim>\<open>search\<close> with \<^verbatim>\<open>top_k = 1\<close>, return the results unchanged.
  The notebook: "each time it calls the embedding model to generate embeddings from
  your query".
\<close>

definition memory_search :: "env \<Rightarrow> world \<Rightarrow> string \<Rightarrow> (exn + query_result list) \<times> world" where
  "memory_search env s query =
     (let s1 = emit (EmbedCall query) s in
      if embed_fault env (now s) then (Inl EmbeddingFault, s1)
      else (Inr (search env (docs s) (embed env query) 1),
            emit (SearchCall (embed env query) 1) s1))"

section \<open>Grounded completion\<close>

text \<open>
  \<^verbatim>\<open>chat_function\<close> is built once from the prompt with the two slots
  \<^verbatim>\<open>{{$db_record}}\<close> and \<^verbatim>\<open>{{$query_term}}\<close>; both invocations name it.
\<close>

definition chat_function :: string where
  "chat_function = ''chatGPTPlugin.ChatGPTFunc''"

text \<open>
  The completion service answers a bound prompt with the fragments of its text;
  a fault of the service is an exception.  \<^verbatim>\<open>kernel.invoke\<close> returns the whole text,
  \<^verbatim>\<open>kernel.invoke_stream\<close> the fragments one by one.
\<close>

definition invoke ::
  "env \<Rightarrow> world \<Rightarrow> delivery \<Rightarrow> string \<Rightarrow> kernel_arguments \<Rightarrow> (exn + string list) \<times> world" where
  "invoke env s mode f arguments =
     (let s1 = emit (Invoked mode f arguments) s in
      if complete_fault env (now s) then (Inl CompletionFault, s1)
      else (Inr (complete env arguments), s1))"

text \<open>
  Cells 11 and 17, run in this order:
  \<^verbatim>\<open>result = await memory.search(collection_name, query_term)\<close>, then
  \<^verbatim>\<open>completions_result = await kernel.invoke(chat_function,
  sk.KernelArguments(query_term=query_term, db_record=result[0].additional_metadata))\<close>.
\<close>

definition ask_once :: "env \<Rightarrow> string \<Rightarrow> world \<Rightarrow> (exn + string) \<times> world" where
  "ask_once env query_term s =
     (case memory_search env s query_term of
        (Inl e, s1) \<Rightarrow> (Inl e, s1)
      | (Inr result, s1) \<Rightarrow>
          (case result of
             [] \<Rightarrow> (Inl IndexError, s1)
           | best # others \<Rightarrow>
               (case invoke env s1 Whole chat_function
                       [(''query_term'', Some query_term),
                        (''db_record'', res_additional_metadata best)] of
                  (Inl e, s2) \<Rightarrow> (Inl e, s2)
                | (Inr fragments, s2) \<Rightarrow> (Inr (concat fragments), s2))))"

section \<open>The conversation loop\<close>

text \<open>
  The body of the loop after \<^verbatim>\<open>query_term = input("Enter a query: ")\<close>: search,
  build the arguments from \<^verbatim>\<open>result[0]\<close> (an empty \<^verbatim>\<open>result\<close> raises
  \<^verbatim>\<open>IndexError\<close>), print the question, consume the stream printing each fragment,
  print a blank line, sleep five seconds.
\<close>

definition turn :: "env \<Rightarrow> string \<Rightarrow> world \<Rightarrow> (exn + unit) \<times> world" where
  "turn env query_term s =
     (case memory_search env s query_term of
        (Inl e, s1) \<Rightarrow> (Inl e, s1)
      | (Inr result, s1) \<Rightarrow>
          (case result of
             [] \<Rightarrow> (Inl IndexError, s1)
           | best # others \<Rightarrow>
               (case invoke env (emit (Printed (Question query_term)) s1) Streaming chat_function
                       [(''query_term'', Some query_term),
                        (''db_record'', res_additional_metadata best)] of
                  (Inl e, s2) \<Rightarrow> (Inl e, s2)
                | (Inr fragments, s2) \<Rightarrow>
                    (Inr (),
                     emit (Slept 5)
                       (emit (Printed Blank)
                          (foldl (\<lambda>w f. emit (Printed (Fragment f)) w) s2 fragments))))))"

text \<open>
  \<^verbatim>\<open>query_term = ""\<close>, then \<^verbatim>\<open>while query_term != "exit":\<close> with the body above.
  The lines typed by the user are the list \<open>inputs\<close>; \<^verbatim>\<open>input\<close> raises
  \<^verbatim>\<open>EOFError\<close> when there is none left.  The first argument is the value of
  \<^verbatim>\<open>query_term\<close> at the loop head.
\<close>

fun while_loop :: "env \<Rightarrow> string \<Rightarrow> string list \<Rightarrow> world \<Rightarrow> (exn + unit) \<times> world" where
  "while_loop env query_term [] s =
     (if query_term \<noteq> ''exit'' then (Inl EOFError, s) else (Inr (), s))"
| "while_loop env query_term (line # rest) s =
     (if query_term \<noteq> ''exit'' then
        (case turn env line (emit (InputRead line) s) of
           (Inl e, s') \<Rightarrow> (Inl e, s')
         | (Inr u, s') \<Rightarrow> while_loop env line rest s')
      else (Inr (), s))"

definition conversation :: "env \<Rightarrow> string list \<Rightarrow> world \<Rightarrow> (exn + unit) \<times> world" where
  "conversation env inputs s = while_loop env [] inputs s"

section \<open>Observations on a world\<close>

text \<open>The embedding calls and the store writes made so far, read off the trace.\<close>

fun is_embed_call :: "event \<Rightarrow> bool" where
  "is_embed_call (EmbedCall t) = True"
| "is_embed_call e = False"

fun is_upsert_call :: "event \<Rightarrow> bool" where
  "is_upsert_call (UpsertCall k) = True"
| "is_upsert_call e = False"

fun is_invocation :: "event \<Rightarrow> bool" where
  "is_invocation (Invoked m f a) = True"
| "is_invocation e = False"

definition embed_calls :: "world \<Rightarrow> event list" where
  "embed_calls s = filter is_embed_call (trace s)"

definition upsert_calls :: "world \<Rightarrow> event list" where
  "upsert_calls s = filter is_upsert_call (trace s)"

definition invocations :: "world \<Rightarrow> event list" where
  "invocations s = filter is_invocation (trace s)"

text \<open>The ids present in the collection.\<close>

definition ids :: "world \<Rightarrow> string set" where
  "ids s = fst ` set (docs s)"

section \<open>Notions used to state the claims\<close>

text \<open>An item that has the three fields the helper reads.\<close>

definition well_formed :: "item \<Rightarrow> bool" where
  "well_formed item = (item ''id'' \<noteq> None \<and> item ''content'' \<noteq> None \<and> item ''title'' \<noteq> None)"

text \<open>
  During the loop over \<open>data\<close> from the world \<open>s\<close>, no existence check of an item
  with the id \<open>k\<close> fails: each time the loop comes to an item with this id, the lookup
  made at that time is not a faulty one.  Lookups of other ids, embedding calls and
  writes may fail; after an exception has ended the loop there is no further lookup.
\<close>

fun lookups_answer :: "string \<Rightarrow> env \<Rightarrow> nat \<Rightarrow> nat \<Rightarrow> item list \<Rightarrow> world \<Rightarrow> bool" where
  "lookups_answer k env len n [] s = True"
| "lookups_answer k env len n (item # rest) s =
     ((item ''id'' = Some k \<longrightarrow> \<not> get_fault env (now s))
      \<and> (case upsert_item env len (n + 1) item s of
            (Inl e, s') \<Rightarrow> True
          | (Inr u, s') \<Rightarrow> lookups_answer k env len (n + 1) rest s'))"

text \<open>
  The consistency of the collection with an embedding function \<open>f\<close>: every record is
  stored under its own id, carries a vector, and the vector is \<open>f\<close> of the record's
  text; no id occurs twice.
\<close>

definition consistent :: "(string \<Rightarrow> vector) \<Rightarrow> world \<Rightarrow> bool" where
  "consistent f s =
     (list_all (\<lambda>(k, r). rec_id r = k \<and> rec_embedding r = Some (f (rec_text r))) (docs s)
      \<and> distinct (map fst (docs s)))"

text \<open>
  The worlds the notebook can reach from an empty collection: by runs of the helper, of
  the single question (cells 11 and 17) and of the conversation loop, in any order, over
  any files, inputs and fault schedules, with the one embedding function \<open>f\<close>.
\<close>

inductive reachable :: "(string \<Rightarrow> vector) \<Rightarrow> world \<Rightarrow> bool" for f where
  start: "docs s = [] \<Longrightarrow> reachable f s"
| ingest: "reachable f s \<Longrightarrow> embed env = f \<Longrightarrow>
     reachable f (snd (upsert_data_to_memory_store env path s))"
| ask: "reachable f s \<Longrightarrow> embed env = f \<Longrightarrow> reachable f (snd (ask_once env q s))"
| talk: "reachable f s \<Longrightarrow> embed env = f \<Longrightarrow> reachable f (snd (conversation env inputs s))"

text \<open>
  What the claim on grounding asks of a completion call for the query \<open>q\<close>: the
  arguments are the query itself and the metadata of the first result of the search for
  \<open>q\<close> in the collection.  An invocation event is grounded when it names
  \<^verbatim>\<open>chat_function\<close> and its arguments are the grounding of the query they carry.
\<close>

definition grounding :: "env \<Rightarrow> (string \<times> memory_record) list \<Rightarrow> string \<Rightarrow> kernel_arguments option" where
  "grounding env ds q =
     (case search env ds (embed env q) 1 of
        [] \<Rightarrow> None
      | best # others \<Rightarrow>
          Some [(''query_term'', Some q), (''db_record'', res_additional_metadata best)])"

fun grounded :: "env \<Rightarrow> (string \<times> memory_record) list \<Rightarrow> event \<Rightarrow> bool" where
  "grounded env ds (Invoked m f a) =
     (f = chat_function \<and>
      (case map_of a ''query_term'' of
         Some (Some q) \<Rightarrow> grounding env ds q = Some a
       | _ \<Rightarrow> False))"
| "grounded env ds e = True"

section \<open>A sample environment\<close>

text \<open>
  Two items in the notebook's data file, a second file that does not parse, and
  collaborators that answer; the fault schedules of the store are left open.
\<close>

definition item1 :: item where
  "item1 = [''id'' \<mapsto> ''1'', ''content'' \<mapsto> ''new'', ''title'' \<mapsto> ''T'']"

definition item2 :: item where
  "item2 = [''id'' \<mapsto> ''2'', ''content'' \<mapsto> ''two'', ''title'' \<mapsto> ''U'']"

definition sample_env :: "(nat \<Rightarrow> bool) \<Rightarrow> (nat \<Rightarrow> bool) \<Rightarrow> env" where
  "sample_env lookup_faults write_faults =
     \<lparr>fs = [''text-sample.json'' \<mapsto> ''R'', ''broken.json'' \<mapsto> ''{''],
      json_load = (\<lambda>t. if t = ''R'' then Some [item1, item2] else None),
      get_fault = lookup_faults,
      miss_raises = True,
      embed_fault = (\<lambda>t. False),
      write_fault = write_faults,
      complete_fault = (\<lambda>t. False),
      embed = (\<lambda>t. [real (length t)]),
      relevance = (\<lambda>q v. - \<bar>sum_list q - sum_list v\<bar>),
      metadata_of = (\<lambda>r. Some (rec_text r)),
      complete = (\<lambda>a. [''ok''])\<rparr>"

definition never :: "nat \<Rightarrow> bool" where
  "never t = False"

definition empty_world :: world where
  "empty_world = \<lparr>docs = [], trace = []\<rparr>"

text \<open>A collection that holds id 1 with an older content.\<close>

definition old_record :: memory_record where
  "old_record = \<lparr>rec_id = ''1'', rec_text = ''old'', rec_description = ''T'',
                 rec_additional_metadata = None, rec_embedding = Some [3]\<rparr>"

definition old_world :: world where
  "old_world = \<lparr>docs = [(''1'', old_record)], trace = []\<rparr>"

text \<open>Fault schedules: at one time only, at every time.\<close>

definition at_time :: "nat \<Rightarrow> nat \<Rightarrow> bool" where
  "at_time k t = (t = k)"

definition always :: "nat \<Rightarrow> bool" where
  "always t = True"

text \<open>
  Two runs of the helper over the collection that holds the older record, where the
  seventh external event (the lookup of id 1 in the second run) is a lookup that fails.
\<close>

definition flaky_env :: env where
  "flaky_env = sample_env (at_time 6) never"

definition once :: world where
  "once = snd (upsert_data_to_memory_store flaky_env ''text-sample.json'' old_world)"

definition twice :: world where
  "twice = snd (upsert_data_to_memory_store flaky_env ''text-sample.json'' once)"

text \<open>The empty collection after one run of the helper with no fault.\<close>

definition settled :: world where
  "settled = snd (upsert_data_to_memory_store (sample_env never never) ''text-sample.json'' empty_world)"

section \<open>Basic facts\<close>

lemma trace_emit: "trace (emit e s) = trace s @ [e]"
  by (simp add: emit_def)

lemma docs_emit: "docs (emit e s) = docs s"
  by (simp add: emit_def)

lemma now_emit: "now (emit e s) = Suc (now s)"
  by (simp add: emit_def now_def)

lemma ids_emit: "ids (emit e s) = ids s"
  by (simp add: ids_def docs_emit)

lemma store_get_world: "store_get env s k = (r, s') \<Longrightarrow> s' = emit (GetCall k) s"
  by (auto simp: store_get_def Let_def split: if_splits option.splits)

lemma store_get_found:
  "\<not> get_fault env (now s) \<Longrightarrow> map_of (docs s) k = Some r \<Longrightarrow>
   store_get env s k = (Inr (Some r), emit (GetCall k) s)"
  by (simp add: store_get_def Let_def)

lemma store_get_fault:
  "get_fault env (now s) \<Longrightarrow> store_get env s k = (Inl StorageLookupFault, emit (GetCall k) s)"
  by (simp add: store_get_def Let_def)

lemma store_get_SomeD: "store_get env s k = (Inr (Some r), s') \<Longrightarrow> map_of (docs s) k = Some r"
  by (auto simp: store_get_def Let_def split: if_splits option.splits)

lemma save_information_ok:
  "save_information env s k c t = (Inr u, s') \<Longrightarrow>
   s' = \<lparr>docs = AList.update k \<lparr>rec_id = k, rec_text = c, rec_description = t,
            rec_additional_metadata = None, rec_embedding = Some (embed env c)\<rparr> (docs s),
         trace = trace s @ [EmbedCall c, UpsertCall k]\<rparr>"
  by (auto simp: save_information_def Let_def emit_def split: if_splits)

lemma save_information_fail:
  "save_information env s k c t = (Inl e, s') \<Longrightarrow>
   docs s' = docs s \<and> (e = EmbeddingFault \<or> e = StorageWriteFault)"
  by (auto simp: save_information_def Let_def emit_def split: if_splits)

lemma save_information_no_fault:
  "\<not> embed_fault env (now s) \<Longrightarrow> \<not> write_fault env (Suc (now s)) \<Longrightarrow>
   \<exists>s'. save_information env s k c t = (Inr (), s')"
  by (simp add: save_information_def Let_def now_emit)

lemma already_created_TrueD:
  "already_created env s item = (True, s1) \<Longrightarrow>
   \<exists>k r. item ''id'' = Some k \<and> map_of (docs s) k = Some r \<and> s1 = emit (GetCall k) s"
  by (auto simp: already_created_def split: option.splits prod.splits sum.splits
      dest: store_get_SomeD store_get_world)

lemma already_created_docs: "already_created env s item = (b, s1) \<Longrightarrow> docs s1 = docs s"
  by (auto simp: already_created_def docs_emit split: option.splits prod.splits sum.splits
      dest!: store_get_world)

lemma already_created_found:
  "item ''id'' = Some k \<Longrightarrow> map_of (docs s) k = Some r \<Longrightarrow> \<not> get_fault env (now s) \<Longrightarrow>
   already_created env s item = (True, emit (GetCall k) s)"
  by (simp add: already_created_def store_get_found)

lemma upsert_item_skip:
  assumes "item ''id'' = Some k" "map_of (docs s) k = Some r" "\<not> get_fault env (now s)"
  shows "upsert_item env len n item s =
           (Inr (), emit (Printed (Skipping n len)) (emit (GetCall k) s))"
  using already_created_found[where item=item and k=k and s=s and r=r and env=env] assms
  by (simp add: upsert_item_def)

lemma upsert_item_cases:
  assumes "upsert_item env len n item s = (res, s')"
  obtains
    (skip) k r where "item ''id'' = Some k" "map_of (docs s) k = Some r" "res = Inr ()"
      "s' = emit (Printed (Skipping n len)) (emit (GetCall k) s)"
  | (saved) k c t s1 s2 where "item ''id'' = Some k" "item ''content'' = Some c"
      "item ''title'' = Some t" "already_created env s item = (False, s1)"
      "save_information env s1 k c t = (Inr (), s2)" "res = Inr ()"
      "s' = emit (Printed (Saving n len)) s2"
  | (key) f s1 where "already_created env s item = (False, s1)" "item f = None"
      "f = ''id'' \<or> f = ''content'' \<or> f = ''title''" "res = Inl (KeyError f)" "s' = s1"
  | (failed) k c t s1 e where "item ''id'' = Some k" "item ''content'' = Some c"
      "item ''title'' = Some t" "already_created env s item = (False, s1)"
      "save_information env s1 k c t = (Inl e, s')" "res = Inl e"
proof (cases "already_created env s item")
  case (Pair b s1)
  show thesis
  proof (cases b)
    case True
    from Pair True have ac: "already_created env s item = (True, s1)" by simp
    from already_created_TrueD[OF ac]
    obtain k r where k: "item ''id'' = Some k" "map_of (docs s) k = Some r"
      "s1 = emit (GetCall k) s" by blast
    from assms ac have "res = Inr ()" "s' = emit (Printed (Skipping n len)) s1"
      by (simp_all add: upsert_item_def)
    with k show thesis by (intro skip[of k r]) simp_all
  next
    case False
    with Pair have ac: "already_created env s item = (False, s1)" by simp
    show thesis
    proof (cases "item ''id''")
      case None
      with assms ac have "res = Inl (KeyError ''id'')" "s' = s1"
        by (simp_all add: upsert_item_def)
      with ac None show thesis by (intro key[of s1 "''id''"]) simp_all
    next
      case k: (Some k)
      show thesis
      proof (cases "item ''content''")
        case None
        with assms ac k have "res = Inl (KeyError ''content'')" "s' = s1"
          by (simp_all add: upsert_item_def)
        with ac None show thesis by (intro key[of s1 "''content''"]) simp_all
      next
        case c: (Some c)
        show thesis
        proof (cases "item ''title''")
          case None
          with assms ac k c have "res = Inl (KeyError ''title'')" "s' = s1"
            by (simp_all add: upsert_item_def)
          with ac None show thesis by (intro key[of s1 "''title''"]) simp_all
        next
          case t: (Some t)
          obtain r2 s2 where sv: "save_information env s1 k c t = (r2, s2)" by force
          show thesis
          proof (cases r2)
            case (Inl e)
            with assms ac k c t sv have "res = Inl e" "s' = s2"
              by (simp_all add: upsert_item_def)
            with ac k c t sv Inl show thesis by (intro failed[of k c t s1 e]) simp_all
          next
            case (Inr u)
            with assms ac k c t sv have "res = Inr ()" "s' = emit (Printed (Saving n len)) s2"
              by (simp_all add: upsert_item_def)
            with ac k c t sv Inr show thesis by (intro saved[of k c t s1 s2]) simp_all
          qed
        qed
      qed
    qed
  qed
qed

lemma map_of_ids: "map_of (docs s) k = Some r \<Longrightarrow> k \<in> ids s"
  unfolding ids_def by (metis map_of_SomeD fst_conv image_eqI)

lemma ids_already_created: "already_created env s item = (b, s1) \<Longrightarrow> ids s1 = ids s"
  by (simp add: ids_def already_created_docs)

lemma ids_save_ok: "save_information env s k c t = (Inr u, s') \<Longrightarrow> ids s' = insert k (ids s)"
  by (drule save_information_ok) (simp add: ids_def dom_update)

lemma ids_save_fail: "save_information env s k c t = (Inl e, s') \<Longrightarrow> ids s' = ids s"
  by (drule save_information_fail) (simp add: ids_def)

lemma upsert_item_ids: "upsert_item env len n item s = (res, s') \<Longrightarrow> ids s \<subseteq> ids s'"
  by (erule upsert_item_cases)
     (auto simp: ids_emit dest: ids_already_created ids_save_ok ids_save_fail)

lemma upsert_item_ok_id:
  "upsert_item env len n item s = (Inr u, s') \<Longrightarrow> \<exists>k. item ''id'' = Some k \<and> k \<in> ids s'"
  by (erule upsert_item_cases)
     (auto simp: ids_emit dest: ids_already_created ids_save_ok map_of_ids)

lemma now_already_created: "already_created env s item = (b, s1) \<Longrightarrow> now s \<le> now s1"
  by (auto simp: already_created_def now_emit split: option.splits prod.splits sum.splits
      dest!: store_get_world)

lemma now_save: "save_information env s k c t = (r, s') \<Longrightarrow> now s \<le> now s'"
  by (auto simp: save_information_def Let_def now_def emit_def split: if_splits)

lemma upsert_item_now: "upsert_item env len n item s = (res, s') \<Longrightarrow> now s \<le> now s'"
  by (erule upsert_item_cases)
     (auto simp: now_emit dest!: now_already_created now_save)

lemma ingest_loop_ids:
  "ingest_loop env len n data s = (res, s') \<Longrightarrow> ids s \<subseteq> ids s'"
proof (induction data arbitrary: n s)
  case Nil then show ?case by simp
next
  case (Cons item rest)
  obtain r1 s1 where u: "upsert_item env len (n + 1) item s = (r1, s1)" by force
  show ?case
  proof (cases r1)
    case (Inl e)
    with Cons.prems u upsert_item_ids[OF u] show ?thesis by simp
  next
    case (Inr v)
    with Cons.prems u have "ingest_loop env len (n + 1) rest s1 = (res, s')" by simp
    from Cons.IH[OF this] upsert_item_ids[OF u] show ?thesis by blast
  qed
qed

lemma ingest_loop_all_present:
  "ingest_loop env len n data s = (Inr u, s') \<Longrightarrow>
   \<forall>item \<in> set data. \<exists>k. item ''id'' = Some k \<and> k \<in> ids s'"
proof (induction data arbitrary: n s)
  case Nil then show ?case by simp
next
  case (Cons item rest)
  obtain r1 s1 where u: "upsert_item env len (n + 1) item s = (r1, s1)" by force
  with Cons.prems obtain v where r1: "r1 = Inr v"
    and rest: "ingest_loop env len (n + 1) rest s1 = (Inr u, s')"
    by (cases r1) auto
  from upsert_item_ok_id[OF u[unfolded r1]] ingest_loop_ids[OF rest]
  have "\<exists>k. item ''id'' = Some k \<and> k \<in> ids s'" by blast
  with Cons.IH[OF rest] show ?case by simp
qed

lemma ingest_loop_all_skipped:
  assumes "\<forall>item \<in> set data. \<exists>k. item ''id'' = Some k \<and> k \<in> ids s"
    and "\<forall>t \<ge> now s. \<not> get_fault env t"
  shows "\<exists>s'. ingest_loop env len n data s = (Inr (), s') \<and> docs s' = docs s
           \<and> embed_calls s' = embed_calls s \<and> upsert_calls s' = upsert_calls s"
  using assms
proof (induction data arbitrary: n s)
  case Nil then show ?case by simp
next
  case (Cons item rest)
  from Cons.prems(1) obtain k where k: "item ''id'' = Some k" "k \<in> ids s" by auto
  then obtain r where r: "map_of (docs s) k = Some r"
    unfolding ids_def by (metis weak_map_of_SomeI prod.collapse imageE)
  let ?s1 = "emit (Printed (Skipping (n + 1) len)) (emit (GetCall k) s)"
  from Cons.prems(2) have nf: "\<not> get_fault env (now s)" by simp
  have step: "upsert_item env len (n + 1) item s = (Inr (), ?s1)"
    using k(1) r nf by (rule upsert_item_skip)
  have "\<forall>item \<in> set rest. \<exists>k. item ''id'' = Some k \<and> k \<in> ids ?s1"
    using Cons.prems(1) by (simp add: ids_emit)
  moreover have "\<forall>t \<ge> now ?s1. \<not> get_fault env t"
    using Cons.prems(2) by (simp add: now_emit)
  ultimately obtain s' where s': "ingest_loop env len (n + 1) rest ?s1 = (Inr (), s')"
    "docs s' = docs ?s1" "embed_calls s' = embed_calls ?s1" "upsert_calls s' = upsert_calls ?s1"
    using Cons.IH by blast
  then show ?case using step
    by (simp add: docs_emit embed_calls_def upsert_calls_def trace_emit)
qed

lemma already_created_FalseD:
  "already_created env s item = (False, s1) \<Longrightarrow> item ''id'' = Some k \<Longrightarrow>
   \<not> get_fault env (now s) \<Longrightarrow> map_of (docs s) k = None"
  by (auto simp: already_created_def store_get_def Let_def split: option.splits if_splits)

lemma already_created_trace:
  "already_created env s item = (b, s1) \<Longrightarrow>
   count_list (trace s1) (UpsertCall k) = count_list (trace s) (UpsertCall k)"
  by (auto simp: already_created_def trace_emit split: option.splits prod.splits sum.splits
      dest!: store_get_world)

lemma save_information_trace:
  "save_information env s k c t = (r, s') \<Longrightarrow>
   trace s' = trace s @ [EmbedCall c] \<or> trace s' = trace s @ [EmbedCall c, UpsertCall k]"
  by (auto simp: save_information_def Let_def emit_def split: if_splits)

lemma upsert_item_keeps:
  assumes "item ''id'' = Some k \<longrightarrow> \<not> get_fault env (now s)"
    and "upsert_item env len n item s = (res, s')"
    and "map_of (docs s) k = Some r"
  shows "map_of (docs s') k = Some r
         \<and> count_list (trace s') (UpsertCall k) = count_list (trace s) (UpsertCall k)"
  using assms(2)
proof (cases rule: upsert_item_cases)
  case (skip k' r')
  then show ?thesis using assms(3) by (simp add: docs_emit trace_emit)
next
  case (saved k' c t s1 s2)
  have ne: "k' \<noteq> k"
  proof
    assume "k' = k"
    with saved(1) assms(1) have "\<not> get_fault env (now s)" by simp
    from already_created_FalseD[OF saved(4) saved(1) this] \<open>k' = k\<close> assms(3)
    show False by simp
  qed
  from save_information_ok[OF saved(5)] already_created_docs[OF saved(4)]
    already_created_trace[OF saved(4), of k] ne assms(3) saved(7)
  show ?thesis by (simp add: docs_emit trace_emit update_conv')
next
  case (key f s1)
  then show ?thesis using assms(3) already_created_docs[of env s item False s1]
      already_created_trace[of env s item False s1 k] by simp
next
  case (failed k' c t s1 e)
  have ne: "k' \<noteq> k"
  proof
    assume "k' = k"
    with failed(1) assms(1) have "\<not> get_fault env (now s)" by simp
    from already_created_FalseD[OF failed(4) failed(1) this] \<open>k' = k\<close> assms(3)
    show False by simp
  qed
  from save_information_fail[OF failed(5)] save_information_trace[OF failed(5)]
    already_created_docs[OF failed(4)] already_created_trace[OF failed(4), of k] ne assms(3)
  show ?thesis by auto
qed

lemma ingest_loop_keeps:
  assumes "lookups_answer k env len n data s" "ingest_loop env len n data s = (res, s')"
    and "map_of (docs s) k = Some r"
  shows "map_of (docs s') k = Some r
         \<and> count_list (trace s') (UpsertCall k) = count_list (trace s) (UpsertCall k)"
  using assms
proof (induction data arbitrary: n s)
  case Nil then show ?case by simp
next
  case (Cons item rest)
  obtain r1 s1 where u: "upsert_item env len (n + 1) item s = (r1, s1)" by force
  from Cons.prems(1) have a: "item ''id'' = Some k \<longrightarrow> \<not> get_fault env (now s)" by simp
  note fr = upsert_item_keeps[OF a u Cons.prems(3)]
  show ?case
  proof (cases r1)
    case (Inl e)
    with Cons.prems(2) u fr show ?thesis by simp
  next
    case (Inr v)
    with Cons.prems(2) u have rest: "ingest_loop env len (n + 1) rest s1 = (res, s')" by simp
    from Cons.prems(1) u Inr have "lookups_answer k env len (n + 1) rest s1" by simp
    from Cons.IH[OF this rest] fr show ?thesis by simp
  qed
qed

section \<open>The trace only grows\<close>

lemma prefix_emit: "prefix (trace s) (trace (emit e s))"
  by (simp add: trace_emit)

lemma already_created_prefix: "already_created env s item = (b, s1) \<Longrightarrow> prefix (trace s) (trace s1)"
  by (auto simp: already_created_def trace_emit split: option.splits prod.splits sum.splits
      dest!: store_get_world)

lemma save_information_prefix: "save_information env s k c t = (r, s') \<Longrightarrow> prefix (trace s) (trace s')"
  by (auto dest!: save_information_trace)

lemma upsert_item_prefix: "upsert_item env len n item s = (res, s') \<Longrightarrow> prefix (trace s) (trace s')"
proof (erule upsert_item_cases, goal_cases)
  case (1 k r) then show ?case by (simp add: trace_emit)
next
  case (2 k c t s1 s2)
  from already_created_prefix[OF 2(4)] save_information_prefix[OF 2(5)] 2(7)
  show ?case by (auto simp: trace_emit prefix_def)
next
  case (3 f s1) then show ?case by (auto dest: already_created_prefix)
next
  case (4 k c t s1 e)
  from already_created_prefix[OF 4(4)] save_information_prefix[OF 4(5)]
  show ?case by (rule prefix_order.trans)
qed

lemma ingest_loop_prefix:
  "ingest_loop env len n data s = (res, s') \<Longrightarrow> prefix (trace s) (trace s')"
proof (induction data arbitrary: n s)
  case Nil then show ?case by simp
next
  case (Cons item rest)
  obtain r1 s1 where st: "upsert_item env len (n + 1) item s = (r1, s1)" by force
  note p1 = upsert_item_prefix[OF st]
  show ?case
  proof (cases r1)
    case (Inl e) with Cons.prems st p1 show ?thesis by simp
  next
    case (Inr v)
    with Cons.prems st have "ingest_loop env len (n + 1) rest s1 = (res, s')" by simp
    from p1 Cons.IH[OF this] show ?thesis by (rule prefix_order.trans)
  qed
qed

lemma upsert_data_prefix:
  "prefix (trace s) (trace (snd (upsert_data_to_memory_store env path s)))"
  by (auto simp: upsert_data_to_memory_store_def split: option.splits
      intro: ingest_loop_prefix[OF surjective_pairing])

section \<open>Errors and faults of the loop\<close>

lemma upsert_item_error:
  "upsert_item env len n item s = (Inl e, s') \<Longrightarrow>
   e = EmbeddingFault \<or> e = StorageWriteFault \<or> (\<exists>f. e = KeyError f)"
  by (erule upsert_item_cases) (auto dest: save_information_fail)

lemma ingest_loop_error:
  "ingest_loop env len n data s = (Inl e, s') \<Longrightarrow>
   e = EmbeddingFault \<or> e = StorageWriteFault \<or> (\<exists>f. e = KeyError f)"
proof (induction data arbitrary: n s)
  case Nil then show ?case by simp
next
  case (Cons item rest)
  obtain r1 s1 where u: "upsert_item env len (n + 1) item s = (r1, s1)" by force
  show ?case
  proof (cases r1)
    case (Inl e1)
    with Cons.prems u upsert_item_error[of env len "n + 1" item s e1 s1] show ?thesis by simp
  next
    case (Inr v)
    with Cons.prems u have "ingest_loop env len (n + 1) rest s1 = (Inl e, s')" by simp
    from Cons.IH[OF this] show ?thesis .
  qed
qed

lemma upsert_item_no_save_fault:
  assumes "\<forall>t. \<not> embed_fault env t" "\<forall>t. \<not> write_fault env t" "well_formed item"
  shows "\<exists>s'. upsert_item env len n item s = (Inr (), s')"
proof -
  obtain res s' where u: "upsert_item env len n item s = (res, s')" by force
  from u show ?thesis
  proof (cases rule: upsert_item_cases)
    case (key f s1)
    from key(2,3) assms(3) show ?thesis
      by (auto simp: well_formed_def)
  next
    case (failed k c t s1 e)
    from save_information_no_fault[of env s1 k c t] assms(1,2) failed(5) show ?thesis by auto
  qed (use u in auto)
qed

lemma ingest_loop_no_save_fault:
  assumes "\<forall>t. \<not> embed_fault env t" "\<forall>t. \<not> write_fault env t" "\<forall>item \<in> set data. well_formed item"
  shows "\<exists>s'. ingest_loop env len n data s = (Inr (), s')"
  using assms(3)
proof (induction data arbitrary: n s)
  case Nil then show ?case by simp
next
  case (Cons item rest)
  from upsert_item_no_save_fault[OF assms(1,2), of item len "n + 1" s] Cons.prems
  obtain s1 where u: "upsert_item env len (n + 1) item s = (Inr (), s1)" by auto
  from Cons.IH[of "n + 1" s1] Cons.prems
  obtain s' where "ingest_loop env len (n + 1) rest s1 = (Inr (), s')" by auto
  with u show ?case by simp
qed

lemma upsert_item_lookup_fault:
  assumes "item ''id'' = Some k" "item ''content'' = Some c" "item ''title'' = Some t"
    and "store_get env s k = (Inl e, s1)"
  shows "upsert_item env len n item s =
           (case save_information env s1 k c t of
              (Inl e', s2) \<Rightarrow> (Inl e', s2)
            | (Inr u, s2) \<Rightarrow> (Inr (), emit (Printed (Saving n len)) s2))"
  using assms by (simp add: upsert_item_def already_created_def)

lemma ingest_loop_append:
  "ingest_loop env len n xs s = (Inr u, s') \<Longrightarrow>
   ingest_loop env len n (xs @ ys) s = ingest_loop env len (n + length xs) ys s'"
proof (induction xs arbitrary: n s)
  case Nil then show ?case by simp
next
  case (Cons x xs)
  obtain r1 s1 where st: "upsert_item env len (n + 1) x s = (r1, s1)" by force
  with Cons.prems obtain v where r1: "r1 = Inr v"
    and rest: "ingest_loop env len (n + 1) xs s1 = (Inr u, s')"
    by (cases r1) auto
  from Cons.IH[OF rest] st r1 show ?case by simp
qed

lemma save_information_write_fault:
  "\<not> embed_fault env (now s) \<Longrightarrow> write_fault env (Suc (now s)) \<Longrightarrow>
   save_information env s k c t = (Inl StorageWriteFault, emit (UpsertCall k) (emit (EmbedCall c) s))"
  by (simp add: save_information_def Let_def now_emit)

section \<open>Consistency is preserved\<close>

lemma consistent_docs: "docs s' = docs s \<Longrightarrow> consistent f s' = consistent f s"
  by (simp add: consistent_def)

lemma list_all_update:
  "list_all P al \<Longrightarrow> P (k, v) \<Longrightarrow> list_all P (AList.update k v al)"
  by (induction al) auto

lemma consistent_save:
  assumes "consistent (embed env) s" "save_information env s k c t = (r, s')"
  shows "consistent (embed env) s'"
proof (cases r)
  case (Inl e)
  with assms save_information_fail[of env s k c t e s'] show ?thesis
    by (simp add: consistent_def)
next
  case (Inr u)
  with assms save_information_ok[of env s k c t u s'] show ?thesis
    by (simp add: consistent_def list_all_update distinct_update)
qed

lemma consistent_upsert_item:
  assumes "consistent (embed env) s" "upsert_item env len n item s = (res, s')"
  shows "consistent (embed env) s'"
  using assms(2)
proof (cases rule: upsert_item_cases)
  case (skip k r)
  with assms(1) show ?thesis by (simp add: consistent_def docs_emit)
next
  case (saved k c t s1 s2)
  from assms(1) already_created_docs[OF saved(4)] have "consistent (embed env) s1"
    by (simp add: consistent_def)
  from consistent_save[OF this saved(5)] saved(7) show ?thesis
    by (simp add: consistent_def docs_emit)
next
  case (key f s1)
  with assms(1) already_created_docs[of env s item False s1] show ?thesis
    by (simp add: consistent_def)
next
  case (failed k c t s1 e)
  from assms(1) already_created_docs[OF failed(4)] have "consistent (embed env) s1"
    by (simp add: consistent_def)
  from consistent_save[OF this failed(5)] show ?thesis .
qed

lemma consistent_ingest_loop:
  "consistent (embed env) s \<Longrightarrow> ingest_loop env len n data s = (res, s') \<Longrightarrow>
   consistent (embed env) s'"
proof (induction data arbitrary: n s)
  case Nil then show ?case by simp
next
  case (Cons item rest)
  obtain r1 s1 where st: "upsert_item env len (n + 1) item s = (r1, s1)" by force
  note c1 = consistent_upsert_item[OF Cons.prems(1) st]
  show ?case
  proof (cases r1)
    case (Inl e) with Cons.prems(2) st c1 show ?thesis by simp
  next
    case (Inr v)
    with Cons.prems(2) st have "ingest_loop env len (n + 1) rest s1 = (res, s')" by simp
    from Cons.IH[OF c1 this] show ?thesis .
  qed
qed

lemma consistent_ingest:
  "consistent (embed env) s \<Longrightarrow> consistent (embed env) (snd (upsert_data_to_memory_store env path s))"
  by (auto simp: upsert_data_to_memory_store_def split: option.splits
      intro: consistent_ingest_loop[OF _ surjective_pairing])

lemma docs_memory_search: "memory_search env s q = (r, s') \<Longrightarrow> docs s' = docs s"
  by (auto simp: memory_search_def Let_def docs_emit split: if_splits)

lemma docs_invoke: "invoke env s m f a = (r, s') \<Longrightarrow> docs s' = docs s"
  by (auto simp: invoke_def Let_def docs_emit split: if_splits)

lemma docs_foldl_emit: "docs (foldl (\<lambda>w f. emit (g f) w) s frags) = docs s"
  by (induction frags arbitrary: s) (simp_all add: docs_emit)

lemma docs_ask_once: "docs (snd (ask_once env q s)) = docs s"
  by (auto simp: ask_once_def split: prod.splits sum.splits list.splits
      dest!: docs_memory_search docs_invoke)

lemma docs_turn: "docs (snd (turn env q s)) = docs s"
  by (auto simp: turn_def docs_emit docs_foldl_emit split: prod.splits sum.splits list.splits
      dest!: docs_memory_search docs_invoke)

lemma docs_while_loop: "docs (snd (while_loop env q inputs s)) = docs s"
proof (induction inputs arbitrary: q s)
  case Nil then show ?case by simp
next
  case (Cons line rest)
  obtain r1 s1 where t: "turn env line (emit (InputRead line) s) = (r1, s1)" by force
  with docs_turn[of env line "emit (InputRead line) s"] have d: "docs s1 = docs s"
    by (simp add: docs_emit)
  show ?case
  proof (cases r1)
    case (Inl e) with t d show ?thesis by simp
  next
    case (Inr v) with t d Cons.IH[of line s1] show ?thesis by simp
  qed
qed

section \<open>Ranking\<close>

lemma ranked_sorted: "sorted_wrt (\<lambda>a b. res_relevance b \<le> res_relevance a) (ranked env ds q)"
proof -
  have "sorted (map (\<lambda>r. - res_relevance r) (ranked env ds q))"
    unfolding ranked_def by (rule sorted_sort_key)
  then show ?thesis by (simp add: sorted_map)
qed

lemma ranked_stable:
  "filter (\<lambda>r. res_relevance r = x) (ranked env ds q)
     = filter (\<lambda>r. res_relevance r = x) (List.map_filter (to_result env q) (map snd ds))"
proof -
  have "filter (\<lambda>r. - res_relevance r = - x) (ranked env ds q)
     = filter (\<lambda>r. - res_relevance r = - x) (List.map_filter (to_result env q) (map snd ds))"
    unfolding ranked_def by (rule sort_key_stable)
  then show ?thesis by simp
qed

section \<open>Invocations of the completion service\<close>

lemma invocations_emit:
  "invocations (emit e s) = (if is_invocation e then invocations s @ [e] else invocations s)"
  by (simp add: invocations_def trace_emit)

lemma invocations_foldl_emit:
  "invocations (foldl (\<lambda>w f. emit (Printed (g f)) w) s frags) = invocations s"
  by (induction frags arbitrary: s) (simp_all add: invocations_emit)

lemma invocations_memory_search:
  "memory_search env s q = (r, s') \<Longrightarrow> invocations s' = invocations s"
  by (auto simp: memory_search_def Let_def invocations_emit split: if_splits)

lemma invocations_invoke:
  "invoke env s m f a = (r, s') \<Longrightarrow> invocations s' = invocations s @ [Invoked m f a]"
  by (auto simp: invoke_def Let_def invocations_emit split: if_splits)

lemma turn_invocations:
  assumes "memory_search env s q = (Inr (best # others), s1)"
  shows "invocations (snd (turn env q s)) = invocations s @
           [Invoked Streaming chat_function
              [(''query_term'', Some q), (''db_record'', res_additional_metadata best)]]"
proof -
  let ?a = "[(''query_term'', Some q), (''db_record'', res_additional_metadata best)]"
  obtain r2 s2 where i: "invoke env (emit (Printed (Question q)) s1) Streaming chat_function ?a = (r2, s2)"
    by force
  from invocations_invoke[OF i] invocations_memory_search[OF assms]
  have "invocations s2 = invocations s @ [Invoked Streaming chat_function ?a]"
    by (simp add: invocations_emit)
  with assms i show ?thesis
    by (cases r2) (simp_all add: turn_def invocations_emit invocations_foldl_emit)
qed

lemma ask_once_invocations:
  assumes "memory_search env s q = (Inr (best # others), s1)"
  shows "invocations (snd (ask_once env q s)) = invocations s @
           [Invoked Whole chat_function
              [(''query_term'', Some q), (''db_record'', res_additional_metadata best)]]"
proof -
  let ?a = "[(''query_term'', Some q), (''db_record'', res_additional_metadata best)]"
  obtain r2 s2 where i: "invoke env s1 Whole chat_function ?a = (r2, s2)"
    by force
  from invocations_invoke[OF i] invocations_memory_search[OF assms]
  have "invocations s2 = invocations s @ [Invoked Whole chat_function ?a]"
    by simp
  with assms i show ?thesis
    by (cases r2) (simp_all add: ask_once_def)
qed

lemma turn_no_result:
  "memory_search env s q = (Inr [], s1) \<Longrightarrow> turn env q s = (Inl IndexError, s1)"
  by (simp add: turn_def)

lemma while_loop_sentinel:
  "query_term \<noteq> ''exit'' \<Longrightarrow>
   while_loop env query_term (''exit'' # rest) s = turn env ''exit'' (emit (InputRead ''exit'') s)"
  by (cases "turn env ''exit'' (emit (InputRead ''exit'') s)"; cases rest)
     (auto split: sum.splits)

lemma memory_search_result:
  "memory_search env s q = (Inr result, s1) \<Longrightarrow> result = search env (docs s) (embed env q) 1"
  by (auto simp: memory_search_def Let_def split: if_splits)

lemma grounded_bound:
  assumes "memory_search env s q = (Inr (best # others), s1)"
  shows "grounded env (docs s) (Invoked m chat_function
           [(''query_term'', Some q), (''db_record'', res_additional_metadata best)])"
  using memory_search_result[OF assms, symmetric] by (simp add: grounding_def)

lemma turn_new_invocations:
  "\<exists>new. invocations (snd (turn env q s)) = invocations s @ new \<and> list_all (grounded env (docs s)) new"
proof -
  obtain r s1 where m: "memory_search env s q = (r, s1)" by force
  show ?thesis
  proof (cases r)
    case (Inl e)
    with m invocations_memory_search[OF m] show ?thesis by (simp add: turn_def)
  next
    case (Inr result)
    show ?thesis
    proof (cases result)
      case Nil
      with m Inr invocations_memory_search[OF m] show ?thesis by (simp add: turn_def)
    next
      case (Cons best others)
      with m Inr have m': "memory_search env s q = (Inr (best # others), s1)" by simp
      from turn_invocations[OF m'] grounded_bound[OF m'] show ?thesis by simp
    qed
  qed
qed

lemma ask_once_new_invocations:
  "\<exists>new. invocations (snd (ask_once env q s)) = invocations s @ new \<and> list_all (grounded env (docs s)) new"
proof -
  obtain r s1 where m: "memory_search env s q = (r, s1)" by force
  show ?thesis
  proof (cases r)
    case (Inl e)
    with m invocations_memory_search[OF m] show ?thesis by (simp add: ask_once_def)
  next
    case (Inr result)
    show ?thesis
    proof (cases result)
      case Nil
      with m Inr invocations_memory_search[OF m] show ?thesis by (simp add: ask_once_def)
    next
      case (Cons best others)
      with m Inr have m': "memory_search env s q = (Inr (best # others), s1)" by simp
      from ask_once_invocations[OF m'] grounded_bound[OF m'] show ?thesis by simp
    qed
  qed
qed

lemma while_loop_new_invocations:
  "\<exists>new. invocations (snd (while_loop env qt inputs s)) = invocations s @ new
         \<and> list_all (grounded env (docs s)) new"
proof (induction inputs arbitrary: qt s)
  case Nil then show ?case by simp
next
  case (Cons line rest)
  let ?s0 = "emit (InputRead line) s"
  obtain r1 s1 where t: "turn env line ?s0 = (r1, s1)" by force
  from turn_new_invocations[of env line ?s0] t
  obtain new1 where n1: "invocations s1 = invocations s @ new1" "list_all (grounded env (docs s)) new1"
    by (auto simp: invocations_emit docs_emit)
  from docs_turn[of env line ?s0] t have d: "docs s1 = docs s" by (simp add: docs_emit)
  show ?case
  proof (cases "qt = ''exit''")
    case True then show ?thesis by simp
  next
    case False
    show ?thesis
    proof (cases r1)
      case (Inl e) with t n1 False show ?thesis by simp
    next
      case (Inr v)
      from Cons.IH[of line s1] d
      obtain new2 where "invocations (snd (while_loop env line rest s1)) = invocations s1 @ new2"
        "list_all (grounded env (docs s)) new2" by auto
      with t n1 False Inr show ?thesis by simp
    qed
  qed
qed

text \<open>The equations that evaluate a run in the sample environment.\<close>

lemmas run_defs = upsert_data_to_memory_store_def upsert_item_def already_created_def
  store_get_def save_information_def emit_def now_def sample_env_def never_def at_time_def
  always_def item1_def item2_def empty_world_def old_world_def old_record_def
  embed_calls_def upsert_calls_def ids_def

lemmas talk_defs = conversation_def turn_def ask_once_def memory_search_def invoke_def
  search_def ranked_def to_result_def List.map_filter_simps chat_function_def invocations_def

section \<open>Claims on ingestion\<close>

text \<open>
  C10.  If the data file cannot be opened, or its text does not parse as JSON, the helper
  raises before the loop begins: the world is returned as it was, so its trace has no
  existence check, no embedding call and no write, and the collection is unchanged.
\<close>

theorem unreadable_file_changes_nothing:
  assumes "fs env path = None \<or> (\<exists>text. fs env path = Some text \<and> json_load env text = None)"
  shows "upsert_data_to_memory_store env path s =
           (Inl (if fs env path = None then OSError else JSONDecodeError), s)"
  using assms by (auto simp: upsert_data_to_memory_store_def)

theorem unreadable_file_changes_nothing_witness:
  "upsert_data_to_memory_store (sample_env never never) ''nofile.json'' old_world
     = (Inl OSError, old_world)
   \<and> upsert_data_to_memory_store (sample_env never never) ''broken.json'' old_world
     = (Inl JSONDecodeError, old_world)"
  using unreadable_file_changes_nothing[of "sample_env never never" "''nofile.json''" old_world]
        unreadable_file_changes_nothing[of "sample_env never never" "''broken.json''" old_world]
  by (simp add: sample_env_def)

text \<open>
  C1, as amended.  If a first run of the helper returns normally and no existence check
  fails during the second run, then the second run returns normally, leaves the
  collection exactly as the first run left it, and makes no embedding call and no
  write: its trace extends the trace of the first run by no embedding call and no
  store write.
\<close>

theorem second_run_changes_nothing:
  assumes "upsert_data_to_memory_store env path s = (Inr (), s1)"
    and "\<forall>t \<ge> now s1. \<not> get_fault env t"
  shows "\<exists>s2. upsert_data_to_memory_store env path s1 = (Inr (), s2) \<and> docs s2 = docs s1
           \<and> prefix (trace s1) (trace s2)
           \<and> embed_calls s2 = embed_calls s1 \<and> upsert_calls s2 = upsert_calls s1"
proof -
  from assms(1) obtain body data where f: "fs env path = Some body" "json_load env body = Some data"
    and run: "ingest_loop env (length data) 0 data s = (Inr (), s1)"
    by (auto simp: upsert_data_to_memory_store_def split: option.splits)
  from ingest_loop_all_present[OF run]
  have "\<forall>item \<in> set data. \<exists>k. item ''id'' = Some k \<and> k \<in> ids s1" .
  from ingest_loop_all_skipped[OF this assms(2), of "length data" 0] f
    upsert_data_prefix[of s1 env path]
  show ?thesis by (auto simp: upsert_data_to_memory_store_def)
qed

theorem second_run_changes_nothing_witness:
  "\<exists>s2. upsert_data_to_memory_store (sample_env never never) ''text-sample.json'' settled
           = (Inr (), s2) \<and> docs s2 = docs settled
           \<and> prefix (trace settled) (trace s2)
           \<and> embed_calls s2 = embed_calls settled \<and> upsert_calls s2 = upsert_calls settled"
proof -
  have h1: "upsert_data_to_memory_store (sample_env never never) ''text-sample.json'' empty_world
              = (Inr (), settled)"
    by (simp add: settled_def run_defs)
  have h2: "\<forall>t \<ge> now settled. \<not> get_fault (sample_env never never) t"
    by (simp add: sample_env_def never_def)
  from second_run_changes_nothing[OF h1 h2] show ?thesis .
qed

text \<open>
  C1 as stated fails when a lookup of the second run fails: the first run (it skips id
  1, which the collection holds with an older content) returns normally; in the second
  run the lookup of id 1 raises, the item is embedded and written again, and the
  collection differs from the one the first run left.
\<close>

theorem second_run_after_lookup_fault:
  "fst (upsert_data_to_memory_store flaky_env ''text-sample.json'' old_world) = Inr ()
   \<and> ''1'' \<in> ids once
   \<and> docs twice \<noteq> docs once
   \<and> embed_calls twice \<noteq> embed_calls once
   \<and> upsert_calls twice \<noteq> upsert_calls once"
  by (simp add: once_def twice_def flaky_env_def run_defs)

text \<open>
  C9, as amended.  Let the collection hold a record under id \<open>k\<close>.  An item with this
  id whose existence check does not fail is skipped whatever its content and title (the
  only events are the lookup and the progress line: no embedding call, no write).  And
  after the loop over any data in which no existence check of an item with id \<open>k\<close>
  fails, the collection still holds the same record under \<open>k\<close> and no write to \<open>k\<close>
  was made (the trace is only extended, by no write to \<open>k\<close>), whatever fails for the
  other items.  The witness is a run in which the lookup of the other id fails.
\<close>

theorem present_id_is_skipped:
  assumes "map_of (docs s) k = Some r"
  shows "(item ''id'' = Some k \<and> \<not> get_fault env (now s) \<longrightarrow>
            upsert_item env len n item s
              = (Inr (), s\<lparr>trace := trace s @ [GetCall k, Printed (Skipping n len)]\<rparr>))
         \<and> (lookups_answer k env len m data s \<longrightarrow>
              map_of (docs (snd (ingest_loop env len m data s))) k = Some r
              \<and> count_list (trace (snd (ingest_loop env len m data s))) (UpsertCall k)
                  = count_list (trace s) (UpsertCall k))
         \<and> prefix (trace s) (trace (snd (ingest_loop env len m data s)))"
proof -
  have "upsert_item env len n item s
          = (Inr (), s\<lparr>trace := trace s @ [GetCall k, Printed (Skipping n len)]\<rparr>)"
    if "item ''id'' = Some k" "\<not> get_fault env (now s)"
    using upsert_item_skip[where item=item and k=k and s=s and r=r and env=env] that assms
    by (simp add: emit_def)
  moreover have "map_of (docs (snd (ingest_loop env len m data s))) k = Some r
         \<and> count_list (trace (snd (ingest_loop env len m data s))) (UpsertCall k)
             = count_list (trace s) (UpsertCall k)"
    if "lookups_answer k env len m data s"
    using ingest_loop_keeps[OF that _ assms, of "fst (ingest_loop env len m data s)"
      "snd (ingest_loop env len m data s)"]
    by simp
  moreover have "prefix (trace s) (trace (snd (ingest_loop env len m data s)))"
    by (rule ingest_loop_prefix[OF surjective_pairing])
  ultimately show ?thesis by blast
qed

theorem present_id_is_skipped_witness:
  "upsert_item (sample_env (at_time 2) never) 2 1 item1 old_world
     = (Inr (), old_world\<lparr>trace := trace old_world @ [GetCall ''1'', Printed (Skipping 1 2)]\<rparr>)
   \<and> map_of (docs (snd (ingest_loop (sample_env (at_time 2) never) 2 0 [item1, item2] old_world))) ''1''
     = Some old_record
   \<and> prefix (trace old_world)
       (trace (snd (ingest_loop (sample_env (at_time 2) never) 2 0 [item1, item2] old_world)))
   \<and> count_list (trace (snd (ingest_loop (sample_env (at_time 2) never) 2 0 [item1, item2] old_world)))
       (UpsertCall ''1'')
     = count_list (trace old_world) (UpsertCall ''1'')
   \<and> get_fault (sample_env (at_time 2) never) 2
   \<and> trace (snd (ingest_loop (sample_env (at_time 2) never) 2 0 [item1, item2] old_world))
     = [GetCall ''1'', Printed (Skipping 1 2), GetCall ''2'', EmbedCall ''two'', UpsertCall ''2'',
        Printed (Saving 2 2)]"
proof -
  have h1: "map_of (docs old_world) ''1'' = Some old_record"
    by (simp add: old_world_def)
  have h2: "lookups_answer ''1'' (sample_env (at_time 2) never) 2 0 [item1, item2] old_world"
    by (simp add: run_defs)
  have h3: "item1 ''id'' = Some ''1'' \<and> \<not> get_fault (sample_env (at_time 2) never) (now old_world)"
    by (simp add: run_defs)
  have h4: "get_fault (sample_env (at_time 2) never) 2
   \<and> trace (snd (ingest_loop (sample_env (at_time 2) never) 2 0 [item1, item2] old_world))
     = [GetCall ''1'', Printed (Skipping 1 2), GetCall ''2'', EmbedCall ''two'', UpsertCall ''2'',
        Printed (Saving 2 2)]"
    by (simp add: run_defs)
  from present_id_is_skipped[OF h1, where item=item1 and env="sample_env (at_time 2) never"
      and len=2 and n=1 and m=0 and data="[item1, item2]"] h2 h3 h4
  show ?thesis by blast
qed

text \<open>
  C9 as stated fails when the lookup fails: id 1 is in the collection with the content
  "old", the lookup of the first item raises, and the helper embeds the item's content
  "new" and overwrites the stored record.
\<close>

theorem present_id_rewritten_after_lookup_fault:
  "map_of (docs old_world) ''1'' = Some old_record
   \<and> map_of (docs (snd (upsert_data_to_memory_store (sample_env (at_time 0) never)
                         ''text-sample.json'' old_world))) ''1''
       = Some \<lparr>rec_id = ''1'', rec_text = ''new'', rec_description = ''T'',
               rec_additional_metadata = None, rec_embedding = Some [3]\<rparr>
   \<and> rec_text old_record = ''old''
   \<and> take 3 (trace (snd (upsert_data_to_memory_store (sample_env (at_time 0) never)
                         ''text-sample.json'' old_world)))
       = [GetCall ''1'', EmbedCall ''new'', UpsertCall ''1'']"
  by (simp add: run_defs)

text \<open>
  C4.  Whatever exception the existence check raises for an item (a fault of the
  storage as well as "not found"), the helper handles the item as an absent one: it
  calls \<^verbatim>\<open>save_information\<close> for it (embedding, then write) and goes on as that call
  decides.  The helper never raises \<^verbatim>\<open>StorageLookupFault\<close> or \<^verbatim>\<open>RecordNotFound\<close>:
  no fault of the existence check reaches the caller.  And no lookup fault blocks later
  items: if embedding and writing never fail and the items have their three fields, the
  loop returns normally with every item's id in the collection, whatever the schedule
  of lookup faults.
\<close>

theorem lookup_fault_is_absence:
  assumes "item ''id'' = Some k" "item ''content'' = Some c" "item ''title'' = Some t"
    and "store_get env s k = (Inl e, s1)"
  shows "upsert_item env len n item s =
           (case save_information env s1 k c t of
              (Inl e', s2) \<Rightarrow> (Inl e', s2)
            | (Inr u, s2) \<Rightarrow> (Inr (), emit (Printed (Saving n len)) s2))
         \<and> fst (upsert_data_to_memory_store env path w) \<noteq> Inl StorageLookupFault
         \<and> fst (upsert_data_to_memory_store env path w) \<noteq> Inl RecordNotFound
         \<and> ((\<forall>t. \<not> embed_fault env t) \<and> (\<forall>t. \<not> write_fault env t)
              \<and> list_all well_formed data \<longrightarrow>
            fst (ingest_loop env len m data w) = Inr ()
            \<and> list_all (\<lambda>item. \<exists>k \<in> ids (snd (ingest_loop env len m data w)). item ''id'' = Some k) data)"
proof -
  have surf: "fst (upsert_data_to_memory_store env path w) \<noteq> Inl ex"
    if "ex = StorageLookupFault \<or> ex = RecordNotFound" for ex
  proof
    assume a: "fst (upsert_data_to_memory_store env path w) = Inl ex"
    then obtain s' where "upsert_data_to_memory_store env path w = (Inl ex, s')"
      by (cases "upsert_data_to_memory_store env path w") simp
    then have "ex = OSError \<or> ex = JSONDecodeError
                \<or> (\<exists>data. ingest_loop env (length data) 0 data w = (Inl ex, s'))"
      by (auto simp: upsert_data_to_memory_store_def split: option.splits)
    with that show False by (auto dest: ingest_loop_error)
  qed
  have run: "fst (ingest_loop env len m data w) = Inr ()
            \<and> list_all (\<lambda>item. \<exists>k \<in> ids (snd (ingest_loop env len m data w)). item ''id'' = Some k) data"
    if h: "(\<forall>t. \<not> embed_fault env t) \<and> (\<forall>t. \<not> write_fault env t) \<and> list_all well_formed data"
  proof -
    from h have wf: "\<forall>item \<in> set data. well_formed item" by (simp add: list_all_iff)
    from h ingest_loop_no_save_fault[OF _ _ wf, of env len m w]
    obtain s' where r: "ingest_loop env len m data w = (Inr (), s')" by auto
    from ingest_loop_all_present[OF r] r show ?thesis by (auto simp: list_all_iff)
  qed
  from upsert_item_lookup_fault[OF assms] surf run show ?thesis by blast
qed

theorem lookup_fault_is_absence_witness:
  "upsert_item (sample_env always never) 2 1 item1 old_world =
     (case save_information (sample_env always never) (emit (GetCall ''1'') old_world)
             ''1'' ''new'' ''T'' of
        (Inl e', s2) \<Rightarrow> (Inl e', s2)
      | (Inr u, s2) \<Rightarrow> (Inr (), emit (Printed (Saving 1 2)) s2))
   \<and> fst (upsert_data_to_memory_store (sample_env always never) ''text-sample.json'' old_world)
       \<noteq> Inl StorageLookupFault
   \<and> fst (upsert_data_to_memory_store (sample_env always never) ''text-sample.json'' old_world)
       \<noteq> Inl RecordNotFound
   \<and> fst (ingest_loop (sample_env always never) 2 0 [item1, item2] old_world) = Inr ()
   \<and> list_all
        (\<lambda>item. \<exists>k \<in> ids (snd (ingest_loop (sample_env always never) 2 0 [item1, item2] old_world)).
                  item ''id'' = Some k)
        [item1, item2]"
proof -
  have h1: "item1 ''id'' = Some ''1''" and h2: "item1 ''content'' = Some ''new''"
    and h3: "item1 ''title'' = Some ''T''"
    by (simp_all add: item1_def)
  have h4: "store_get (sample_env always never) old_world ''1''
              = (Inl StorageLookupFault, emit (GetCall ''1'') old_world)"
    by (simp add: store_get_def sample_env_def always_def)
  have h5: "(\<forall>t. \<not> embed_fault (sample_env always never) t)
            \<and> (\<forall>t. \<not> write_fault (sample_env always never) t)
            \<and> list_all well_formed [item1, item2]"
    by (simp add: sample_env_def never_def well_formed_def item1_def item2_def)
  from lookup_fault_is_absence[OF h1 h2 h3 h4, of 2 1 "''text-sample.json''" old_world
      "[item1, item2]" 0] h5
  show ?thesis by blast
qed

text \<open>
  C5, as amended.  A storage write fault during ingestion is not handled: the exception
  leaves the helper at once.  The records written for the items before stay in the
  collection, the failing item's record is not stored, nothing is printed for it, and
  the items after it are not processed at all (the outcome does not depend on them).
\<close>

theorem write_fault_ends_ingestion:
  assumes "fs env path = Some body" "json_load env body = Some (before @ item # rest)"
    and "ingest_loop env (length (before @ item # rest)) 0 before s = (Inr (), s0)"
    and "already_created env s0 item = (False, s1)"
    and "item ''id'' = Some k" "item ''content'' = Some c" "item ''title'' = Some t"
    and "\<not> embed_fault env (now s1)" "write_fault env (Suc (now s1))"
  shows "upsert_data_to_memory_store env path s
           = (Inl StorageWriteFault, emit (UpsertCall k) (emit (EmbedCall c) s1))
         \<and> docs (emit (UpsertCall k) (emit (EmbedCall c) s1)) = docs s0"
proof -
  let ?len = "length (before @ item # rest)"
  let ?s2 = "emit (UpsertCall k) (emit (EmbedCall c) s1)"
  from assms(4-9) have "upsert_item env ?len (length before + 1) item s0 = (Inl StorageWriteFault, ?s2)"
    by (simp add: upsert_item_def save_information_write_fault)
  then have "ingest_loop env ?len (length before) (item # rest) s0 = (Inl StorageWriteFault, ?s2)"
    by simp
  with ingest_loop_append[OF assms(3), of "item # rest"]
  have "ingest_loop env ?len 0 (before @ item # rest) s = (Inl StorageWriteFault, ?s2)"
    by simp
  with assms(1,2) have "upsert_data_to_memory_store env path s = (Inl StorageWriteFault, ?s2)"
    by (simp add: upsert_data_to_memory_store_def)
  moreover from already_created_docs[OF assms(4)] have "docs ?s2 = docs s0"
    by (simp add: docs_emit)
  ultimately show ?thesis by simp
qed

theorem write_fault_ends_ingestion_witness:
  "upsert_data_to_memory_store (sample_env never (at_time 2)) ''text-sample.json'' empty_world
     = (Inl StorageWriteFault,
        emit (UpsertCall ''1'') (emit (EmbedCall ''new'') (emit (GetCall ''1'') empty_world)))
   \<and> docs (emit (UpsertCall ''1'') (emit (EmbedCall ''new'') (emit (GetCall ''1'') empty_world)))
     = docs empty_world"
proof -
  have h1: "fs (sample_env never (at_time 2)) ''text-sample.json'' = Some ''R''"
    by (simp add: sample_env_def)
  have h2: "json_load (sample_env never (at_time 2)) ''R'' = Some ([] @ item1 # [item2])"
    by (simp add: sample_env_def)
  have h3: "ingest_loop (sample_env never (at_time 2)) (length ([] @ item1 # [item2])) 0 []
              empty_world = (Inr (), empty_world)"
    by simp
  have h4: "already_created (sample_env never (at_time 2)) empty_world item1
              = (False, emit (GetCall ''1'') empty_world)"
    by (simp add: already_created_def store_get_def sample_env_def never_def item1_def
        empty_world_def)
  have h5: "item1 ''id'' = Some ''1''" and h6: "item1 ''content'' = Some ''new''"
    and h7: "item1 ''title'' = Some ''T''"
    by (simp_all add: item1_def)
  have h8: "\<not> embed_fault (sample_env never (at_time 2)) (now (emit (GetCall ''1'') empty_world))"
    by (simp add: sample_env_def)
  have h9: "write_fault (sample_env never (at_time 2)) (Suc (now (emit (GetCall ''1'') empty_world)))"
    by (simp add: sample_env_def at_time_def now_def emit_def empty_world_def)
  from write_fault_ends_ingestion[OF h1 h2 h3 h4 h5 h6 h7 h8 h9] show ?thesis .
qed

text \<open>
  C5 as stated fails: with a write fault on the first of two items the helper raises;
  the second item is never looked up, embedded or written, and no report of a failed
  item is printed.
\<close>

theorem write_fault_stops_the_batch:
  "upsert_data_to_memory_store (sample_env never (at_time 2)) ''text-sample.json'' empty_world
     = (Inl StorageWriteFault,
        \<lparr>docs = [], trace = [GetCall ''1'', EmbedCall ''new'', UpsertCall ''1'']\<rparr>)"
  by (simp add: run_defs)

section \<open>Claims on the store\<close>

text \<open>
  C7.  In every world the notebook can reach from an empty collection, every record of
  the collection carries a vector, and the vector is the embedding of the record's own
  text: there is no id with content and no vector, and content and embedding never
  diverge.
\<close>

theorem store_is_consistent: "reachable f s \<Longrightarrow> consistent f s"
proof (induction rule: reachable.induct)
  case (start s)
  then show ?case by (simp add: consistent_def)
next
  case (ingest s env path)
  with consistent_ingest[of env s path] show ?case by simp
next
  case (ask s env q)
  then show ?case by (simp add: consistent_docs[OF docs_ask_once])
next
  case (talk s env inputs)
  then show ?case by (simp add: conversation_def consistent_docs[OF docs_while_loop])
qed

theorem store_is_consistent_witness:
  "consistent (embed (sample_env never never)) settled \<and> map fst (docs settled) = [''1'', ''2'']"
proof -
  have "reachable (embed (sample_env never never)) empty_world"
    by (rule reachable.start) (simp add: empty_world_def)
  then have "reachable (embed (sample_env never never))
               (snd (upsert_data_to_memory_store (sample_env never never) ''text-sample.json''
                  empty_world))"
    by (rule reachable.ingest) simp
  then have "reachable (embed (sample_env never never)) settled"
    by (simp add: settled_def)
  from store_is_consistent[OF this] show ?thesis
    by (simp add: settled_def run_defs)
qed

text \<open>
  C8.  The results of a search are in non-increasing order of relevance under the
  configured metric, the results of equal relevance stand in the order in which their
  records were inserted, and there are at most \<open>top_k\<close> of them.
\<close>

theorem search_is_ranked:
  "sorted_wrt (\<lambda>a b. res_relevance b \<le> res_relevance a) (search env ds q top_k)
   \<and> prefix (filter (\<lambda>r. res_relevance r = x) (search env ds q top_k))
        (filter (\<lambda>r. res_relevance r = x) (List.map_filter (to_result env q) (map snd ds)))
   \<and> length (search env ds q top_k) \<le> top_k"
proof -
  have "sorted_wrt (\<lambda>a b. res_relevance b \<le> res_relevance a) (search env ds q top_k)"
    unfolding search_def using ranked_sorted by (rule sorted_wrt_take)
  moreover have "prefix (filter (\<lambda>r. res_relevance r = x) (search env ds q top_k))
        (filter (\<lambda>r. res_relevance r = x) (ranked env ds q))"
    unfolding search_def by (rule filter_mono_prefix) (rule take_is_prefix)
  ultimately show ?thesis by (simp add: ranked_stable search_def)
qed

section \<open>Claims on the conversation loop\<close>

text \<open>
  C2, as amended.  The sentinel is compared at the head of the loop, after the turn's
  work.  When the line read is exactly "exit", the loop runs the same turn as for any
  other line (retrieval, and the completion call when retrieval returns a record) and
  ends with the outcome of that turn, reading no further line.
\<close>

theorem sentinel_turn_then_done:
  assumes "query_term \<noteq> ''exit''"
  shows "while_loop env query_term (''exit'' # rest) s
           = turn env ''exit'' (emit (InputRead ''exit'') s)
         \<and> (\<forall>best others s1.
               memory_search env (emit (InputRead ''exit'') s) ''exit'' = (Inr (best # others), s1) \<longrightarrow>
               invocations (snd (while_loop env query_term (''exit'' # rest) s))
                 = invocations s @
                   [Invoked Streaming chat_function
                      [(''query_term'', Some ''exit''), (''db_record'', res_additional_metadata best)]])"
  using while_loop_sentinel[OF assms, of env rest s]
  by (auto dest!: turn_invocations simp: invocations_emit)

theorem sentinel_turn_then_done_witness:
  "while_loop (sample_env never never) [] (''exit'' # [''more'']) old_world
     = turn (sample_env never never) ''exit'' (emit (InputRead ''exit'') old_world)
   \<and> invocations (snd (while_loop (sample_env never never) [] (''exit'' # [''more'']) old_world))
     = invocations old_world @
         [Invoked Streaming chat_function
            [(''query_term'', Some ''exit''), (''db_record'', Some ''old'')]]"
proof -
  have h1: "[] \<noteq> ''exit''" by simp
  have h2: "memory_search (sample_env never never) (emit (InputRead ''exit'') old_world) ''exit''
    = (Inr (\<lparr>res_id = ''1'', res_text = ''old'', res_description = ''T'',
              res_additional_metadata = Some ''old'', res_relevance = - 1\<rparr> # []),
       emit (SearchCall [4] 1) (emit (EmbedCall ''exit'') (emit (InputRead ''exit'') old_world)))"
    by (simp add: talk_defs run_defs)
  from sentinel_turn_then_done[OF h1, of "sample_env never never" "[''more'']" old_world] h2
  show ?thesis by auto
qed

text \<open>
  C2 as stated fails: on the single line "exit" the loop embeds the line, searches, and
  calls the completion service with it before it ends.
\<close>

theorem sentinel_is_answered:
  "conversation (sample_env never never) [''exit''] old_world
     = (Inr (),
        \<lparr>docs = [(''1'', old_record)],
         trace = [InputRead ''exit'', EmbedCall ''exit'', SearchCall [4] 1,
                  Printed (Question ''exit''),
                  Invoked Streaming chat_function
                    [(''query_term'', Some ''exit''), (''db_record'', Some ''old'')],
                  Printed (Fragment ''ok''), Printed Blank, Slept 5]\<rparr>)"
  by (simp add: talk_defs run_defs)

text \<open>
  C3, as amended.  When the search for a line returns no result, the loop evaluates
  \<^verbatim>\<open>result[0]\<close> on the empty list: \<^verbatim>\<open>IndexError\<close> is raised and ends the loop, right
  after the search; no completion is invoked and nothing is printed for the line.
\<close>

theorem no_result_raises_index_error:
  assumes "query_term \<noteq> ''exit''"
    and "\<not> embed_fault env (now (emit (InputRead line) s))"
    and "search env (docs s) (embed env line) 1 = []"
  shows "while_loop env query_term (line # rest) s
           = (Inl IndexError,
              emit (SearchCall (embed env line) 1) (emit (EmbedCall line) (emit (InputRead line) s)))"
proof -
  from assms(2,3) have "memory_search env (emit (InputRead line) s) line
      = (Inr [], emit (SearchCall (embed env line) 1) (emit (EmbedCall line) (emit (InputRead line) s)))"
    by (simp add: memory_search_def Let_def docs_emit)
  from turn_no_result[OF this] assms(1) show ?thesis by simp
qed

theorem no_result_raises_index_error_witness:
  "while_loop (sample_env never never) [] (''Hey'' # [''exit'']) empty_world
     = (Inl IndexError,
        emit (SearchCall (embed (sample_env never never) ''Hey'') 1)
          (emit (EmbedCall ''Hey'') (emit (InputRead ''Hey'') empty_world)))"
proof -
  have h1: "[] \<noteq> ''exit''" by simp
  have h2: "\<not> embed_fault (sample_env never never) (now (emit (InputRead ''Hey'') empty_world))"
    by (simp add: sample_env_def never_def)
  have h3: "search (sample_env never never) (docs empty_world)
              (embed (sample_env never never) ''Hey'') 1 = []"
    by (simp add: talk_defs empty_world_def)
  from no_result_raises_index_error[OF h1 h2 h3] show ?thesis .
qed

text \<open>
  C3 as stated fails: over an empty collection the first line makes the loop raise
  \<^verbatim>\<open>IndexError\<close>; the trace ends with the search, no outcome is reported.
\<close>

theorem empty_collection_raises:
  "conversation (sample_env never never) [''Hey'', ''exit''] empty_world
     = (Inl IndexError,
        \<lparr>docs = [], trace = [InputRead ''Hey'', EmbedCall ''Hey'', SearchCall [3] 1]\<rparr>)"
  by (simp add: talk_defs run_defs)

text \<open>
  C6.  Whenever the search for the query returns a first result, the streaming turn and
  the single question each make exactly one completion call, on the same function and
  with the same arguments: \<^verbatim>\<open>query_term\<close> is the query and \<^verbatim>\<open>db_record\<close> is the metadata
  of that first result; they differ in the delivery only.  And every completion call that
  the conversation loop or the single question makes is grounded: its \<^verbatim>\<open>db_record\<close> is
  the metadata of the first result of the search for the very query it carries.
\<close>

theorem completions_are_grounded:
  "(\<forall>best others s1.
      memory_search env s q = (Inr (best # others), s1) \<longrightarrow>
        invocations (snd (turn env q s)) = invocations s @
           [Invoked Streaming chat_function
              [(''query_term'', Some q), (''db_record'', res_additional_metadata best)]]
      \<and> invocations (snd (ask_once env q s)) = invocations s @
           [Invoked Whole chat_function
              [(''query_term'', Some q), (''db_record'', res_additional_metadata best)]])
   \<and> list_all (grounded env (docs s))
        (drop (length (invocations s)) (invocations (snd (conversation env inputs s))))
   \<and> list_all (grounded env (docs s))
        (drop (length (invocations s)) (invocations (snd (ask_once env q s))))"
proof -
  from while_loop_new_invocations[of env "[]" inputs s]
  have "list_all (grounded env (docs s))
        (drop (length (invocations s)) (invocations (snd (conversation env inputs s))))"
    by (auto simp: conversation_def)
  moreover from ask_once_new_invocations[of env q s]
  have "list_all (grounded env (docs s))
        (drop (length (invocations s)) (invocations (snd (ask_once env q s))))"
    by auto
  ultimately show ?thesis using turn_invocations ask_once_invocations by blast
qed

theorem completions_are_grounded_witness:
  "invocations (snd (turn (sample_env never never) ''Hey'' old_world))
     = invocations old_world @
         [Invoked Streaming chat_function
            [(''query_term'', Some ''Hey''), (''db_record'', Some ''old'')]]
   \<and> invocations (snd (ask_once (sample_env never never) ''Hey'' old_world))
     = invocations old_world @
         [Invoked Whole chat_function
            [(''query_term'', Some ''Hey''), (''db_record'', Some ''old'')]]
   \<and> list_all (grounded (sample_env never never) (docs old_world))
        (drop (length (invocations old_world))
           (invocations (snd (conversation (sample_env never never) [''Hey'', ''exit''] old_world))))
   \<and> list_all (grounded (sample_env never never) (docs old_world))
        (drop (length (invocations old_world))
           (invocations (snd (ask_once (sample_env never never) ''Hey'' old_world))))"
proof -
  have h: "memory_search (sample_env never never) old_world ''Hey''
    = (Inr (\<lparr>res_id = ''1'', res_text = ''old'', res_description = ''T'',
              res_additional_metadata = Some ''old'', res_relevance = 0\<rparr> # []),
       emit (SearchCall [3] 1) (emit (EmbedCall ''Hey'') old_world))"
    by (simp add: talk_defs run_defs)
  from completions_are_grounded[of "sample_env never never" old_world "''Hey''"
      "[''Hey'', ''exit'']"] h
  show ?thesis by auto
qed

end
